theory Spec2Isabelle
  imports Main "HOL-Library.Word"
begin

unbundle bit_operations_syntax

section \<open>The COSEM telemetry parser of the Aidon AMS exporter\<close>

text \<open>
  A shallow embedding of \<^verbatim>\<open>pkg/protocol/protocol.go\<close> and of the producer loop of
  \<^verbatim>\<open>main.go\<close>.

  \<^item> The \<^verbatim>\<open>io.Reader\<close> handed to the parser is a \<^verbatim>\<open>bytes.Reader\<close>; its state is the list
    of bytes not yet read. Every parsing function takes that list and, when it succeeds,
    returns the decoded value together with the bytes still unread.
  \<^item> A Go result \<^verbatim>\<open>(value, error)\<close> is a sum: \<open>Inl\<close> carries the error, \<open>Inr\<close> the value.
    The value that Go returns next to a non-nil error (a zero, or the partly filled slice
    of \<^verbatim>\<open>ParseArray\<close>) is dropped, as every caller in the repository drops it;
    \<^verbatim>\<open>ParseFlattened\<close> returns a nil map with every error.
  \<^item> A value of Go's \<^verbatim>\<open>any\<close> is one of the dynamic types the parser creates: nil,
    \<^verbatim>\<open>[]any\<close>, \<^verbatim>\<open>string\<close> and the six fixed-width integer types.
\<close>

subsection \<open>Data\<close>

type_synonym byte = "8 word"

type_synonym reader = "byte list"

text \<open>
  The errors of the package. \<open>EOF\<close> and \<open>ErrUnexpectedEOF\<close> are the two errors of
  \<^verbatim>\<open>io.ReadFull\<close> (the specification calls both \<^verbatim>\<open>TruncatedInput\<close>); the others are the
  \<^verbatim>\<open>fmt.Errorf\<close> messages, in the order of the source:
  "not a code" (\<^verbatim>\<open>MalformedIdentifier\<close>), "unknown enum index %d" (\<^verbatim>\<open>UnrecognizedUnit\<close>),
  "unrecognized datatype: %d" (\<^verbatim>\<open>UnrecognizedType\<close>),
  "top-level structure not of array type" and "sub-level data not of array type"
  (\<^verbatim>\<open>NotASequence\<close>), "sub-level data does not contain at least two entries"
  (\<^verbatim>\<open>TooFewFields\<close>), "first entry not string type; unusable as key"
  (\<^verbatim>\<open>KeyNotIdentifier\<close>). The source has no error for excessive nesting.
\<close>

datatype error =
    EOF
  | ErrUnexpectedEOF
  | NotACode
  | UnknownEnumIndex byte
  | UnrecognizedDatatype byte
  | TopLevelNotArray
  | SubLevelNotArray
  | SubLevelTooFewEntries
  | FirstEntryNotString

text \<open>
  The dynamic types stored in \<^verbatim>\<open>any\<close>. \<^verbatim>\<open>ParseCode\<close>, \<^verbatim>\<open>ParseString\<close> and \<^verbatim>\<open>ParseEnum\<close> all
  return a Go \<^verbatim>\<open>string\<close>, so identifiers, texts and units share the constructor \<open>VStr\<close>.
  Signed and unsigned integers of one width hold the same bits and differ in the type.
\<close>

datatype any =
    VNil
  | VArr "any list"
  | VStr string
  | VInt8 "8 word"
  | VInt16 "16 word"
  | VInt32 "32 word"
  | VUint8 "8 word"
  | VUint16 "16 word"
  | VUint32 "32 word"

type_synonym flatrecord = "string \<rightharpoonup> any"

subsection \<open>Reading bytes\<close>

text \<open>
  \<^verbatim>\<open>io.ReadFull(r, buf)\<close> with \<^verbatim>\<open>len(buf) = n\<close> on a byte reader: with \<open>n\<close> bytes left it
  fills the buffer and advances by \<open>n\<close> (also for \<open>n = 0\<close>, at the end of the input);
  with no byte left it fails with \<open>EOF\<close>, with some but fewer than \<open>n\<close> with
  \<open>ErrUnexpectedEOF\<close>.
\<close>

definition ReadFull :: "nat \<Rightarrow> reader \<Rightarrow> error + (byte list \<times> reader)" where
  "ReadFull n r =
     (if n \<le> length r then Inr (take n r, drop n r)
      else if r = [] then Inl EOF
      else Inl ErrUnexpectedEOF)"

text \<open>The conversion \<^verbatim>\<open>string(buf)\<close>: a Go string holds the bytes as they are.\<close>

definition string_of_bytes :: "byte list \<Rightarrow> string" where
  "string_of_bytes buf = map (\<lambda>b. char_of (unat b)) buf"

text \<open>The verb \<^verbatim>\<open>%d\<close> of \<^verbatim>\<open>fmt.Sprintf\<close> on an unsigned number: its decimal digits.\<close>

function fmt_d :: "nat \<Rightarrow> string" where
  "fmt_d n =
     (if n < 10 then [''0123456789'' ! n]
      else fmt_d (n div 10) @ [''0123456789'' ! (n mod 10)])"
  by pat_completeness auto
termination
  by (relation "measure id") auto

declare fmt_d.simps [simp del]

subsection \<open>The scalar parsers\<close>

definition ParseString :: "reader \<Rightarrow> error + (string \<times> reader)" where
  "ParseString r =
     (case ReadFull 1 r of
        Inl err \<Rightarrow> Inl err
      | Inr (buf, r1) \<Rightarrow>
          (let strlen = unat (buf ! 0) in
           case ReadFull strlen r1 of
             Inl err \<Rightarrow> Inl err
           | Inr (buf, r2) \<Rightarrow> Inr (string_of_bytes buf, r2)))"

text \<open>
  \<^verbatim>\<open>ParseCode\<close> reads the \<open>strlen\<close> bytes first and compares \<open>strlen\<close> with 6 afterwards.
\<close>

definition ParseCode :: "reader \<Rightarrow> error + (string \<times> reader)" where
  "ParseCode r =
     (case ReadFull 1 r of
        Inl err \<Rightarrow> Inl err
      | Inr (buf, r1) \<Rightarrow>
          (let strlen = unat (buf ! 0) in
           case ReadFull strlen r1 of
             Inl err \<Rightarrow> Inl err
           | Inr (buf, r2) \<Rightarrow>
               if strlen \<noteq> 6 then Inl NotACode
               else Inr (fmt_d (unat (buf ! 0)) @ ''-'' @ fmt_d (unat (buf ! 1)) @ '':'' @
                         fmt_d (unat (buf ! 2)) @ ''.'' @ fmt_d (unat (buf ! 3)) @ ''.'' @
                         fmt_d (unat (buf ! 4)) @ ''.'' @ fmt_d (unat (buf ! 5)), r2)))"

text \<open>
  \<^verbatim>\<open>binary.Read(r, binary.BigEndian, &i)\<close> reads as many bytes as \<open>i\<close> is wide with
  \<^verbatim>\<open>io.ReadFull\<close> and assembles them with the first byte the most significant.
\<close>

definition BigEndian_Uint16 :: "byte list \<Rightarrow> 16 word" where
  "BigEndian_Uint16 b = ucast (b ! 1) OR push_bit 8 (ucast (b ! 0))"

definition BigEndian_Uint32 :: "byte list \<Rightarrow> 32 word" where
  "BigEndian_Uint32 b =
     ucast (b ! 3) OR push_bit 8 (ucast (b ! 2)) OR push_bit 16 (ucast (b ! 1))
       OR push_bit 24 (ucast (b ! 0))"

definition ParseUint8 :: "reader \<Rightarrow> error + (any \<times> reader)" where
  "ParseUint8 r =
     (case ReadFull 1 r of Inl err \<Rightarrow> Inl err | Inr (bs, r') \<Rightarrow> Inr (VUint8 (bs ! 0), r'))"

definition ParseUint16 :: "reader \<Rightarrow> error + (any \<times> reader)" where
  "ParseUint16 r =
     (case ReadFull 2 r of
        Inl err \<Rightarrow> Inl err
      | Inr (bs, r') \<Rightarrow> Inr (VUint16 (BigEndian_Uint16 bs), r'))"

definition ParseUint32 :: "reader \<Rightarrow> error + (any \<times> reader)" where
  "ParseUint32 r =
     (case ReadFull 4 r of
        Inl err \<Rightarrow> Inl err
      | Inr (bs, r') \<Rightarrow> Inr (VUint32 (BigEndian_Uint32 bs), r'))"

definition ParseInt8 :: "reader \<Rightarrow> error + (any \<times> reader)" where
  "ParseInt8 r =
     (case ReadFull 1 r of Inl err \<Rightarrow> Inl err | Inr (bs, r') \<Rightarrow> Inr (VInt8 (bs ! 0), r'))"

definition ParseInt16 :: "reader \<Rightarrow> error + (any \<times> reader)" where
  "ParseInt16 r =
     (case ReadFull 2 r of
        Inl err \<Rightarrow> Inl err
      | Inr (bs, r') \<Rightarrow> Inr (VInt16 (BigEndian_Uint16 bs), r'))"

definition ParseInt32 :: "reader \<Rightarrow> error + (any \<times> reader)" where
  "ParseInt32 r =
     (case ReadFull 4 r of
        Inl err \<Rightarrow> Inl err
      | Inr (bs, r') \<Rightarrow> Inr (VInt32 (BigEndian_Uint32 bs), r'))"

definition ParseEnum :: "reader \<Rightarrow> error + (any \<times> reader)" where
  "ParseEnum r =
     (case ReadFull 1 r of
        Inl err \<Rightarrow> Inl err
      | Inr (buf, r') \<Rightarrow>
          (if buf ! 0 = 27 then Inr (VStr ''W'', r')
           else if buf ! 0 = 28 then Inr (VStr ''VA'', r')
           else if buf ! 0 = 29 then Inr (VStr ''VAr'', r')
           else if buf ! 0 = 30 then Inr (VStr ''Wh'', r')
           else if buf ! 0 = 32 then Inr (VStr ''VArh'', r')
           else if buf ! 0 = 33 then Inr (VStr ''A'', r')
           else if buf ! 0 = 35 then Inr (VStr ''V'', r')
           else Inl (UnknownEnumIndex (buf ! 0))))"

subsection \<open>The value parser\<close>

text \<open>
  \<^verbatim>\<open>return ParseCode(r)\<close> and \<^verbatim>\<open>return ParseString(r)\<close> in \<^verbatim>\<open>ParseAny\<close> store the string
  in an \<^verbatim>\<open>any\<close>.
\<close>

definition as_any :: "error + (string \<times> reader) \<Rightarrow> error + (any \<times> reader)" where
  "as_any res = (case res of Inl err \<Rightarrow> Inl err | Inr (s, r) \<Rightarrow> Inr (VStr s, r))"

text \<open>
  \<^verbatim>\<open>ParseAny\<close> and \<^verbatim>\<open>ParseArray\<close> call each other. \<open>ParseArray_loop le i r arr\<close> is the
  \<^verbatim>\<open>for\<close> loop of \<^verbatim>\<open>ParseArray\<close> at index \<open>i\<close>, with \<open>arr\<close> the slice made by
  \<^verbatim>\<open>make([]any, le)\<close> and filled below \<open>i\<close>. The index stays below \<open>le = length arr\<close>, so the
  assignment \<^verbatim>\<open>arr[i] = ...\<close> is in range.
\<close>

function ParseAny :: "reader \<Rightarrow> error + (any \<times> reader)"
  and ParseArray :: "reader \<Rightarrow> error + (any \<times> reader)"
  and ParseArray_loop :: "nat \<Rightarrow> nat \<Rightarrow> reader \<Rightarrow> any list \<Rightarrow> error + (any \<times> reader)"
where
  "ParseAny r =
     (case ReadFull 1 r of
        Inl err \<Rightarrow> Inl err
      | Inr (buf, r') \<Rightarrow>
          (if buf ! 0 = 0 then Inr (VNil, r')
           else if buf ! 0 = 1 \<or> buf ! 0 = 2 then ParseArray r'
           else if buf ! 0 = 9 then as_any (ParseCode r')
           else if buf ! 0 = 10 \<or> buf ! 0 = 12 then as_any (ParseString r')
           else if buf ! 0 = 15 then ParseInt8 r'
           else if buf ! 0 = 16 then ParseInt16 r'
           else if buf ! 0 = 17 then ParseUint8 r'
           else if buf ! 0 = 18 then ParseUint16 r'
           else if buf ! 0 = 5 then ParseInt32 r'
           else if buf ! 0 = 6 then ParseUint32 r'
           else if buf ! 0 = 22 then ParseEnum r'
           else Inl (UnrecognizedDatatype (buf ! 0))))"
| "ParseArray r =
     (case ReadFull 1 r of
        Inl err \<Rightarrow> Inl err
      | Inr (buf, r') \<Rightarrow>
          (let le = unat (buf ! 0) in ParseArray_loop le 0 r' (replicate le VNil)))"
| "ParseArray_loop le i r arr =
     (if i < le then
        (case ParseAny r of
           Inl err \<Rightarrow> Inl err
         | Inr (v, r') \<Rightarrow> ParseArray_loop le (i + 1) r' (arr[i := v]))
      else Inr (VArr arr, r))"
  by pat_completeness auto

subsection \<open>The flattener\<close>

text \<open>
  The body of the \<^verbatim>\<open>for _, item := range arr\<close> loop of \<^verbatim>\<open>ParseFlattened\<close>: the three
  checks in the order of the source, then \<^verbatim>\<open>result[key] = subarr[1]\<close>. The type assertion
  \<^verbatim>\<open>subarr[0].(string)\<close> holds for every \<open>VStr\<close>.
\<close>

definition flatten_item :: "any \<Rightarrow> flatrecord \<Rightarrow> error + flatrecord" where
  "flatten_item item result =
     (case item of
        VArr subarr \<Rightarrow>
          if length subarr < 2 then Inl SubLevelTooFewEntries
          else (case subarr ! 0 of
                  VStr key \<Rightarrow> Inr (result(key \<mapsto> subarr ! 1))
                | _ \<Rightarrow> Inl FirstEntryNotString)
      | _ \<Rightarrow> Inl SubLevelNotArray)"

fun flatten_loop :: "any list \<Rightarrow> flatrecord \<Rightarrow> error + flatrecord" where
  "flatten_loop [] result = Inr result"
| "flatten_loop (item # arr) result =
     (case flatten_item item result of
        Inl err \<Rightarrow> Inl err
      | Inr result' \<Rightarrow> flatten_loop arr result')"

text \<open>The part of \<^verbatim>\<open>ParseFlattened\<close> after the call of \<^verbatim>\<open>ParseAny\<close>.\<close>

definition flatten :: "any \<Rightarrow> error + flatrecord" where
  "flatten data =
     (case data of
        VArr arr \<Rightarrow> flatten_loop arr Map.empty
      | _ \<Rightarrow> Inl TopLevelNotArray)"

definition ParseFlattened :: "reader \<Rightarrow> error + flatrecord" where
  "ParseFlattened r =
     (case ParseAny r of
        Inl err \<Rightarrow> Inl err
      | Inr (data, r') \<Rightarrow> flatten data)"

subsection \<open>The producer loop\<close>

text \<open>
  One iteration of the goroutine in \<^verbatim>\<open>main\<close> that reads frames. \<open>read_error\<close> is the error
  returned by \<^verbatim>\<open>unf.Read(buf)\<close>: nil, one of the two framing events the \<^verbatim>\<open>switch\<close> names, or
  any other error, for which the \<^verbatim>\<open>switch\<close> has no case. \<open>buf\<close> is the buffer of 1024 bytes
  after the read, and \<open>packets\<close> the sequence of records sent on the channel so far (the
  send blocks while 32 records wait; blocking is not modelled).
\<close>

datatype read_error = ErrNil | ErrResynced | ErrAbort | ErrOther

record pipeline =
  msgCounter :: nat
  resyncCounter :: nat
  abortCounter :: nat
  parseErrorCounter :: nat
  packets :: "flatrecord list"

definition producer_step :: "read_error \<Rightarrow> byte list \<Rightarrow> pipeline \<Rightarrow> pipeline" where
  "producer_step err buf s =
     (case err of
        ErrResynced \<Rightarrow> s\<lparr>resyncCounter := resyncCounter s + 1\<rparr>
      | ErrAbort \<Rightarrow> s\<lparr>abortCounter := abortCounter s + 1\<rparr>
      | ErrNil \<Rightarrow>
          (case ParseFlattened (drop 17 buf) of
             Inl perr \<Rightarrow> s\<lparr>parseErrorCounter := parseErrorCounter s + 1\<rparr>
           | Inr packet \<Rightarrow> s\<lparr>msgCounter := msgCounter s + 1, packets := packets s @ [packet]\<rparr>)
      | ErrOther \<Rightarrow> s)"

subsection \<open>Notions used by the properties\<close>

text \<open>
  An element of the top-level array that passes the three checks of the flattener: an
  array of at least two members whose first member is a string. \<open>key_of\<close> and
  \<open>value_of\<close> are its first and second member.
\<close>

fun valid_item :: "any \<Rightarrow> bool" where
  "valid_item (VArr (VStr key # v # rest)) = True"
| "valid_item _ = False"

fun key_of :: "any \<Rightarrow> string" where
  "key_of (VArr (VStr key # rest)) = key"
| "key_of _ = []"

fun value_of :: "any \<Rightarrow> any" where
  "value_of (VArr (k # v # rest)) = v"
| "value_of _ = VNil"

text \<open>
  The \<open>d\<close>-fold nesting of arrays of one element around a null: its encoding (tag 1,
  count 1, \<open>d\<close> times, then tag 0) and its value.
\<close>

fun nested_bytes :: "nat \<Rightarrow> reader" where
  "nested_bytes 0 = [0]"
| "nested_bytes (Suc d) = 1 # 1 # nested_bytes d"

fun nested_value :: "nat \<Rightarrow> any" where
  "nested_value 0 = VNil"
| "nested_value (Suc d) = VArr [nested_value d]"

text \<open>
  \<open>consumes f r v r'\<close>: on the input \<open>r\<close> the parser \<open>f\<close> read a prefix \<open>used\<close> and left
  \<open>r'\<close>, and the prefix alone decides the result: followed by any bytes \<open>s\<close> it gives the
  value \<open>v\<close> and leaves \<open>s\<close>.
\<close>

definition consumes :: "(reader \<Rightarrow> error + ('a \<times> reader)) \<Rightarrow> reader \<Rightarrow> 'a \<Rightarrow> reader \<Rightarrow> bool" where
  "consumes f r v r' \<longleftrightarrow> (\<exists>used. r = used @ r' \<and> (\<forall>s. f (used @ s) = Inr (v, s)))"

text \<open>
  The number of bytes that the first value of an input occupies according to its tags and
  its length and count bytes alone, without decoding anything. This follows the tag table
  of the specification, not the parser: one byte for the tag; for tags 1 and 2 a count
  byte and then that many values, one after the other; for tags 9, 10 and 12 a length byte
  and then that many bytes; one byte of payload for tags 15, 17 and 22, two for tags 16 and
  18, four for tags 5 and 6. \<open>declared_extent_elems k r\<close> is the number of bytes of the
  first \<open>k\<close> values of \<open>r\<close>.
\<close>

function declared_extent :: "reader \<Rightarrow> nat option"
  and declared_extent_elems :: "nat \<Rightarrow> reader \<Rightarrow> nat option"
where
  "declared_extent [] = None"
| "declared_extent (t # r) =
     (if t = 0 then Some 1
      else if t = 1 \<or> t = 2 then
        (case r of
           [] \<Rightarrow> None
         | count # r' \<Rightarrow> map_option (\<lambda>n. 2 + n) (declared_extent_elems (unat count) r'))
      else if t = 9 \<or> t = 10 \<or> t = 12 then
        (case r of [] \<Rightarrow> None | n # r' \<Rightarrow> Some (2 + unat n))
      else if t = 15 \<or> t = 17 \<or> t = 22 then Some 2
      else if t = 16 \<or> t = 18 then Some 3
      else if t = 5 \<or> t = 6 then Some 5
      else None)"
| "declared_extent_elems k r =
     (if k = 0 then Some 0
      else (case declared_extent r of
              None \<Rightarrow> None
            | Some n \<Rightarrow> map_option (\<lambda>m. n + m) (declared_extent_elems (k - 1) (drop n r))))"
  by pat_completeness auto
termination
  by (relation "measures
    [\<lambda>x. case x of Inl r \<Rightarrow> length r | Inr (k, r) \<Rightarrow> length r,
     \<lambda>x. case x of Inl r \<Rightarrow> 0 | Inr (k, r) \<Rightarrow> Suc k]") auto

declare declared_extent_elems.simps [simp del]

text \<open>The depth of nesting of a value: the number of arrays around its innermost member.\<close>

fun nesting :: "any \<Rightarrow> nat" where
  "nesting (VArr xs) = Suc (fold max (map nesting xs) 0)"
| "nesting _ = 0"

section \<open>Termination of the value parser\<close>

lemma ReadFull_length:
  "ReadFull n r = Inr (buf, r') \<Longrightarrow> length r' + n = length r"
  by (auto simp: ReadFull_def split: if_splits)

lemma as_any_Inr:
  "as_any res = Inr (v, r') \<Longrightarrow> \<exists>s. res = Inr (s, r') \<and> v = VStr s"
  by (auto simp: as_any_def split: sum.splits)

lemma ParseString_length:
  "ParseString r = Inr (s, r') \<Longrightarrow> length r' < length r"
  by (auto simp: ParseString_def Let_def split: sum.splits dest!: ReadFull_length)

lemma ParseCode_length:
  "ParseCode r = Inr (s, r') \<Longrightarrow> length r' < length r"
  by (auto simp: ParseCode_def Let_def split: sum.splits if_splits dest!: ReadFull_length)

lemma scalar_length:
  "ParseUint8 r = Inr (v, r') \<Longrightarrow> length r' < length r"
  "ParseUint16 r = Inr (v, r') \<Longrightarrow> length r' < length r"
  "ParseUint32 r = Inr (v, r') \<Longrightarrow> length r' < length r"
  "ParseInt8 r = Inr (v, r') \<Longrightarrow> length r' < length r"
  "ParseInt16 r = Inr (v, r') \<Longrightarrow> length r' < length r"
  "ParseInt32 r = Inr (v, r') \<Longrightarrow> length r' < length r"
  "ParseEnum r = Inr (v, r') \<Longrightarrow> length r' < length r"
  by (auto simp: ParseUint8_def ParseUint16_def ParseUint32_def ParseInt8_def ParseInt16_def
        ParseInt32_def ParseEnum_def split: sum.splits if_splits dest!: ReadFull_length)

text \<open>
  Wherever the parser is defined, a successful call leaves fewer bytes than it was given;
  the loop leaves no more. This is what the loop needs to call itself on the rest.
\<close>

lemma dom_length:
  "ParseAny_ParseArray_ParseArray_loop_dom (Inl r) \<Longrightarrow>
     ParseAny r = Inr (v, r') \<Longrightarrow> length r' < length r"
  "ParseAny_ParseArray_ParseArray_loop_dom (Inr (Inl r)) \<Longrightarrow>
     ParseArray r = Inr (v, r') \<Longrightarrow> length r' < length r"
  "ParseAny_ParseArray_ParseArray_loop_dom (Inr (Inr (le, i, r, arr))) \<Longrightarrow>
     ParseArray_loop le i r arr = Inr (v, r') \<Longrightarrow> length r' \<le> length r"
proof (induct arbitrary: v r' and v r' and v r' rule: ParseAny_ParseArray_ParseArray_loop.pinduct)
  case (1 r)
  from 1(3) obtain buf r1 where rf: "ReadFull 1 r = Inr (buf, r1)"
    by (cases "ReadFull 1 r") (auto simp: ParseAny.psimps[OF 1(1)])
  then have len: "length r1 < length r"
    by (auto dest: ReadFull_length)
  have "length r' \<le> length r1"
  proof (cases "buf ! 0 = 1 \<or> buf ! 0 = 2")
    case True
    with 1(3) rf have "ParseArray r1 = Inr (v, r')"
      by (auto simp: ParseAny.psimps[OF 1(1)])
    moreover from True have "buf ! 0 \<noteq> 0"
      by auto
    ultimately show ?thesis
      using 1(2)[OF rf refl _ True] by fastforce
  next
    case False
    with 1(3) rf show ?thesis
      by (auto simp: ParseAny.psimps[OF 1(1)] split: if_splits
            dest!: as_any_Inr
            dest: ParseString_length ParseCode_length scalar_length)
  qed
  with len show ?case
    by simp
next
  case (2 r)
  from 2(3) obtain buf r1 where rf: "ReadFull 1 r = Inr (buf, r1)"
    by (cases "ReadFull 1 r") (auto simp: ParseArray.psimps[OF 2(1)])
  then have len: "length r1 < length r"
    by (auto dest: ReadFull_length)
  from 2(3) rf
  have "ParseArray_loop (unat (buf ! 0)) 0 r1 (replicate (unat (buf ! 0)) VNil) = Inr (v, r')"
    by (simp add: ParseArray.psimps[OF 2(1)] Let_def)
  from 2(2)[OF rf refl refl this] len show ?case
    by simp
next
  case (3 le i r arr)
  show ?case
  proof (cases "i < le")
    case True
    with 3(4) obtain v1 r1 where pa: "ParseAny r = Inr (v1, r1)"
      and lp: "ParseArray_loop le (i + 1) r1 (arr[i := v1]) = Inr (v, r')"
      by (cases "ParseAny r") (auto simp: ParseArray_loop.psimps[OF 3(1)])
    from 3(2)[OF True pa] 3(3)[OF True pa refl lp] show ?thesis
      by simp
  next
    case False
    with 3(4) show ?thesis
      by (simp add: ParseArray_loop.psimps[OF 3(1)])
  qed
qed

termination ParseAny
proof (relation "measures
    [\<lambda>x. case x of Inl r \<Rightarrow> length r | Inr (Inl r) \<Rightarrow> length r
           | Inr (Inr (le, i, r, arr)) \<Rightarrow> length r,
     \<lambda>x. case x of Inl r \<Rightarrow> 0 | Inr (Inl r) \<Rightarrow> 0
           | Inr (Inr (le, i, r, arr)) \<Rightarrow> Suc (le - i)]", goal_cases)
  case 1
  show ?case by simp
next
  case (2 r b buf r1)
  then show ?case by (auto dest: ReadFull_length)
next
  case (3 r b buf r1 le)
  then show ?case by (auto dest: ReadFull_length)
next
  case (4 le i r arr)
  then show ?case by simp
next
  case (5 le i r arr b v r1)
  then show ?case by (auto dest: dom_length(1))
qed

declare ParseAny.simps [simp del] ParseArray.simps [simp del] ParseArray_loop.simps [simp del]

section \<open>Evaluation rules\<close>

lemma ReadFull_one [simp]:
  "ReadFull (Suc 0) [] = Inl EOF"
  "ReadFull (Suc 0) (b # r) = Inr ([b], r)"
  by (simp_all add: ReadFull_def)

lemma ParseAny_Nil: "ParseAny [] = Inl EOF"
  by (simp add: ParseAny.simps)

lemma ParseAny_Cons:
  "ParseAny (t # r) =
     (if t = 0 then Inr (VNil, r)
      else if t = 1 \<or> t = 2 then ParseArray r
      else if t = 9 then as_any (ParseCode r)
      else if t = 10 \<or> t = 12 then as_any (ParseString r)
      else if t = 15 then ParseInt8 r
      else if t = 16 then ParseInt16 r
      else if t = 17 then ParseUint8 r
      else if t = 18 then ParseUint16 r
      else if t = 5 then ParseInt32 r
      else if t = 6 then ParseUint32 r
      else if t = 22 then ParseEnum r
      else Inl (UnrecognizedDatatype t))"
  by (simp add: ParseAny.simps)

lemma ParseArray_Nil: "ParseArray [] = Inl EOF"
  by (simp add: ParseArray.simps)

lemma ParseArray_Cons:
  "ParseArray (c # r) = ParseArray_loop (unat c) 0 r (replicate (unat c) VNil)"
  by (simp add: ParseArray.simps Let_def)

lemma replicate_numeral:
  "replicate (numeral k) x = x # replicate (pred_numeral k) x"
  by (simp add: numeral_eq_Suc)

lemmas eval_rules =
  ParseAny_Cons ParseAny_Nil ParseArray_Cons ParseArray_Nil ParseArray_loop.simps
  ParseCode_def ParseString_def ParseEnum_def ParseUint8_def ParseUint16_def ParseUint32_def
  ParseInt8_def ParseInt16_def ParseInt32_def BigEndian_Uint16_def BigEndian_Uint32_def
  ReadFull_def as_any_def fmt_d.simps replicate_numeral string_of_bytes_def
  ParseFlattened_def flatten_def flatten_item_def

section \<open>The tag set and the scalar decoders\<close>

text \<open>
  C8. The tag set of the value parser is closed: a first byte outside
  0, 1, 2, 5, 6, 9, 10, 12, 15, 16, 17, 18, 22 makes \<open>ParseAny\<close> fail with the
  unrecognized-datatype error carrying that byte, whatever follows it; and on tag 0 it
  returns nil and leaves every byte after the tag unread.
\<close>

theorem ParseAny_tag_set_closed:
  "(t \<notin> {0, 1, 2, 5, 6, 9, 10, 12, 15, 16, 17, 18, 22} \<longrightarrow>
      ParseAny (t # r) = Inl (UnrecognizedDatatype t)) \<and>
   ParseAny (0 # r) = Inr (VNil, r)"
  by (simp add: ParseAny_Cons)

theorem ParseAny_tag_set_closed_witness:
  "(3 :: byte) \<notin> {0, 1, 2, 5, 6, 9, 10, 12, 15, 16, 17, 18, 22} \<and>
   ParseAny [3, 17, 255] = Inl (UnrecognizedDatatype 3) \<and>
   ParseAny [0, 17, 255] = Inr (VNil, [17, 255])"
  using ParseAny_tag_set_closed [of 3 "[17, 255]"] by simp

text \<open>
  C7. The unit decoder reads one byte. It succeeds exactly for the seven codes
  27, 28, 29, 30, 32, 33, 35, which it maps to W, VA, VAr, Wh, VArh, A, V; for every
  other byte it fails with the unknown-enum error carrying that byte.
\<close>

theorem ParseEnum_unit_table:
  "ParseEnum (27 # r) = Inr (VStr ''W'', r) \<and>
   ParseEnum (28 # r) = Inr (VStr ''VA'', r) \<and>
   ParseEnum (29 # r) = Inr (VStr ''VAr'', r) \<and>
   ParseEnum (30 # r) = Inr (VStr ''Wh'', r) \<and>
   ParseEnum (32 # r) = Inr (VStr ''VArh'', r) \<and>
   ParseEnum (33 # r) = Inr (VStr ''A'', r) \<and>
   ParseEnum (35 # r) = Inr (VStr ''V'', r) \<and>
   (b \<notin> {27, 28, 29, 30, 32, 33, 35} \<longrightarrow> ParseEnum (b # r) = Inl (UnknownEnumIndex b)) \<and>
   ((\<exists>v r'. ParseEnum (b # r) = Inr (v, r')) \<longleftrightarrow> b \<in> {27, 28, 29, 30, 32, 33, 35})"
  by (simp add: ParseEnum_def)

theorem ParseEnum_unit_table_witness:
  "(31 :: byte) \<notin> {27, 28, 29, 30, 32, 33, 35} \<and>
   ParseEnum [31] = Inl (UnknownEnumIndex 31) \<and>
   ParseEnum [35] = Inr (VStr ''V'', [])"
  using ParseEnum_unit_table [of "[]" 31] by simp

text \<open>
  C6, as the code has it. The identifier decoder reads a length byte \<open>n\<close> and then
  \<open>n\<close> bytes, and only then compares \<open>n\<close> with 6. So with fewer than \<open>n\<close> bytes after
  the length byte it fails with a truncation error (\<open>EOF\<close> when nothing follows,
  \<open>ErrUnexpectedEOF\<close> otherwise) whatever \<open>n\<close> is; with the \<open>n\<close> bytes there and
  \<open>n\<close> other than 6 it fails with the not-a-code error; and with \<open>n = 6\<close> and six bytes
  there it returns the six bytes in decimal, joined as \<^verbatim>\<open>%d-%d:%d.%d.%d.%d\<close>.
\<close>

theorem ParseCode_length_check:
  "(unat n \<le> length r \<and> unat n \<noteq> 6 \<longrightarrow> ParseCode (n # r) = Inl NotACode) \<and>
   (length r < unat n \<longrightarrow>
      ParseCode (n # r) = Inl (if r = [] then EOF else ErrUnexpectedEOF)) \<and>
   ParseCode (6 # b0 # b1 # b2 # b3 # b4 # b5 # r) =
     Inr (fmt_d (unat b0) @ ''-'' @ fmt_d (unat b1) @ '':'' @ fmt_d (unat b2) @ ''.'' @
          fmt_d (unat b3) @ ''.'' @ fmt_d (unat b4) @ ''.'' @ fmt_d (unat b5), r)"
  by (simp add: ParseCode_def ReadFull_def)

theorem ParseCode_length_check_witness:
  "unat (5 :: byte) \<le> length [1, 2, 3, 4, 5 :: byte] \<and> unat (5 :: byte) \<noteq> 6 \<and>
   ParseCode [5, 1, 2, 3, 4, 5] = Inl NotACode \<and>
   length [1, 2 :: byte] < unat (6 :: byte) \<and>
   ParseCode [6, 1, 2] = Inl ErrUnexpectedEOF"
  using ParseCode_length_check [of 5 "[1, 2, 3, 4, 5]"] ParseCode_length_check [of 6 "[1, 2]"]
  by simp

text \<open>
  Counterexample to C6 read for every length other than 6: length byte 7 with three bytes after it is a
  length other than 6, and the error is the truncation error, not the not-a-code error.
\<close>

theorem ParseCode_truncated_counterexample:
  "unat (7 :: byte) \<noteq> 6 \<and> ParseCode [7, 1, 2, 3] = Inl ErrUnexpectedEOF \<and>
   ParseCode [7, 1, 2, 3] \<noteq> Inl NotACode"
  by (simp add: ParseCode_def ReadFull_def)


section \<open>The example record\<close>

text \<open>
  C1. The doc comment of \<^verbatim>\<open>ParseFlattened\<close> gives
  \<^verbatim>\<open>[ "1-0:32.7.0.255", 2500, [255, 35] ]\<close> as input data and the mapping of
  \<^verbatim>\<open>"1-0:32.7.0.255"\<close> to 2500 as its output. The code does not return that mapping on
  the bytes of this record (tag 2, count 3; tag 9, length 6 and the six identifier bytes;
  tag 18 and the two bytes of 2500; tag 1, count 2, tag 17 with 255, tag 22 with 35). The
  value parser decodes them to the array of the identifier string, the 16-bit number 2500
  and the array of 255 and the unit V; the loop of \<^verbatim>\<open>ParseFlattened\<close> then takes the first
  element of that array, the identifier string, for a record, finds that it is not an
  array, and returns the error "sub-level data not of array type" and no mapping. With the
  identifier bytes directly after tag 9, without the length byte, the identifier itself is
  refused.
\<close>

theorem ParseFlattened_example_record_fails:
  "ParseAny [2, 3, 9, 6, 1, 0, 32, 7, 0, 255, 18, 9, 196, 1, 2, 17, 255, 22, 35] =
     Inr (VArr [VStr ''1-0:32.7.0.255'', VUint16 2500, VArr [VUint8 255, VStr ''V'']], []) \<and>
   ParseFlattened [2, 3, 9, 6, 1, 0, 32, 7, 0, 255, 18, 9, 196, 1, 2, 17, 255, 22, 35] =
     Inl SubLevelNotArray \<and>
   ParseFlattened [2, 3, 9, 6, 1, 0, 32, 7, 0, 255, 18, 9, 196, 1, 2, 17, 255, 22, 35] \<noteq>
     Inr [''1-0:32.7.0.255'' \<mapsto> VUint16 2500] \<and>
   ParseFlattened [2, 3, 9, 1, 0, 32, 7, 0, 255, 18, 9, 196, 1, 2, 17, 255, 22, 35] =
     Inl NotACode"
  by (simp add: eval_rules cong: sum.case_cong_weak)

text \<open>
  The mapping of the doc comment is what the code returns when the record is the one
  element of a top-level array (tag 1, count 1 before it); its third member is dropped.
\<close>

lemma ParseFlattened_wrapped_example_record:
  "ParseFlattened
     [1, 1, 2, 3, 9, 6, 1, 0, 32, 7, 0, 255, 18, 9, 196, 1, 2, 17, 255, 22, 35] =
     Inr [''1-0:32.7.0.255'' \<mapsto> VUint16 2500]"
  by (simp add: eval_rules cong: sum.case_cong_weak)

section \<open>Nesting\<close>

lemma nested_bytes_decode:
  "ParseAny (nested_bytes d @ s) = Inr (nested_value d, s)"
  by (induction d) (simp_all add: ParseAny_Cons ParseArray_Cons ParseArray_loop.simps)

lemma nesting_nested_value: "nesting (nested_value d) = d"
  by (induction d) simp_all

text \<open>
  C3, as the code has it. The value parser has no bound on the depth of nesting and no
  error for it: for every depth \<open>d\<close> the encoding of \<open>d\<close> arrays of one element, one
  inside the other, around a null decodes to the value nested \<open>d\<close> deep and uses up the
  input.
\<close>

theorem ParseAny_no_depth_limit:
  "ParseAny (nested_bytes d) = Inr (nested_value d, []) \<and> nesting (nested_value d) = d"
  using nested_bytes_decode [of d "[]"] nesting_nested_value [of d] by simp

text \<open>Counterexample to C3 with a bound of 32: a value nested 33 deep is decoded.\<close>

theorem ParseAny_depth_33_counterexample:
  "ParseAny (nested_bytes 33) = Inr (nested_value 33, []) \<and> nesting (nested_value 33) = 33"
  using nested_bytes_decode [of 33 "[]"] nesting_nested_value [of 33] by simp


section \<open>What a successful decode consumes\<close>

lemma ReadFull_Inr:
  "ReadFull n r = Inr (buf, r') \<Longrightarrow> r = buf @ r' \<and> length buf = n"
  by (auto simp: ReadFull_def split: if_splits)

lemma ReadFull_append:
  "length buf = n \<Longrightarrow> ReadFull n (buf @ s) = Inr (buf, s)"
  by (simp add: ReadFull_def)

lemma scalar_consumes:
  "ParseUint8 r = Inr (v, r') \<Longrightarrow> consumes ParseUint8 r v r'"
  "ParseUint16 r = Inr (v, r') \<Longrightarrow> consumes ParseUint16 r v r'"
  "ParseUint32 r = Inr (v, r') \<Longrightarrow> consumes ParseUint32 r v r'"
  "ParseInt8 r = Inr (v, r') \<Longrightarrow> consumes ParseInt8 r v r'"
  "ParseInt16 r = Inr (v, r') \<Longrightarrow> consumes ParseInt16 r v r'"
  "ParseInt32 r = Inr (v, r') \<Longrightarrow> consumes ParseInt32 r v r'"
  unfolding consumes_def ParseUint8_def ParseUint16_def ParseUint32_def ParseInt8_def
    ParseInt16_def ParseInt32_def
  by (auto split: sum.splits dest!: ReadFull_Inr simp: ReadFull_append)

lemma ParseEnum_consumes:
  "ParseEnum r = Inr (v, r') \<Longrightarrow> consumes ParseEnum r v r'"
  unfolding consumes_def ParseEnum_def
  by (auto split: sum.splits if_splits dest!: ReadFull_Inr simp: ReadFull_append)

lemma ParseString_consumes:
  assumes "ParseString r = Inr (v, r')"
  shows "consumes ParseString r v r'"
proof -
  from assms obtain b1 r1 b2 where r1: "ReadFull 1 r = Inr (b1, r1)"
    and r2: "ReadFull (unat (b1 ! 0)) r1 = Inr (b2, r')" and v: "v = string_of_bytes b2"
    by (auto simp: ParseString_def Let_def split: sum.splits)
  from r1 r2 have "r = (b1 @ b2) @ r'" and l1: "length b1 = 1" and l2: "length b2 = unat (b1 ! 0)"
    by (auto dest!: ReadFull_Inr)
  moreover have "ParseString ((b1 @ b2) @ s) = Inr (v, s)" for s
    using l1 l2 v by (simp add: ParseString_def ReadFull_append Let_def)
  ultimately show ?thesis
    unfolding consumes_def by blast
qed

lemma ParseCode_consumes:
  assumes "ParseCode r = Inr (v, r')"
  shows "consumes ParseCode r v r'"
proof -
  from assms obtain b1 r1 b2 where r1: "ReadFull 1 r = Inr (b1, r1)"
    and r2: "ReadFull (unat (b1 ! 0)) r1 = Inr (b2, r')"
    and six: "unat (b1 ! 0) = 6"
    and v: "v = fmt_d (unat (b2 ! 0)) @ ''-'' @ fmt_d (unat (b2 ! 1)) @ '':'' @
                fmt_d (unat (b2 ! 2)) @ ''.'' @ fmt_d (unat (b2 ! 3)) @ ''.'' @
                fmt_d (unat (b2 ! 4)) @ ''.'' @ fmt_d (unat (b2 ! 5))"
    by (auto simp: ParseCode_def Let_def split: sum.splits if_splits)
  from r1 r2 have "r = (b1 @ b2) @ r'" and l1: "length b1 = 1" and l2: "length b2 = unat (b1 ! 0)"
    by (auto dest!: ReadFull_Inr)
  moreover have "ParseCode ((b1 @ b2) @ s) = Inr (v, s)" for s
    using l1 l2 v six by (simp add: ParseCode_def ReadFull_append Let_def)
  ultimately show ?thesis
    unfolding consumes_def by blast
qed

lemma as_any_consumes:
  assumes "as_any (f r) = Inr (v, r')"
    and "\<And>s. f r = Inr (s, r') \<Longrightarrow> consumes f r s r'"
  shows "consumes (\<lambda>r. as_any (f r)) r v r'"
proof -
  from assms(1) obtain s where s: "f r = Inr (s, r')" "v = VStr s"
    by (auto dest: as_any_Inr)
  from assms(2)[OF s(1)] s(2) show ?thesis
    unfolding consumes_def by (auto simp: as_any_def)
qed

lemma consumes_tag:
  assumes "consumes f r v r'" and "\<And>s. ParseAny (t # s) = f s"
  shows "consumes ParseAny (t # r) v r'"
proof -
  from assms(1) obtain used where "r = used @ r'" and "\<And>s. f (used @ s) = Inr (v, s)"
    unfolding consumes_def by blast
  with assms(2) have "t # r = (t # used) @ r'" and "\<And>s. ParseAny ((t # used) @ s) = Inr (v, s)"
    by simp_all
  then show ?thesis
    unfolding consumes_def by blast
qed


lemma ParseAny_consumes_all:
  "ParseAny r = Inr (v, r') \<Longrightarrow> consumes ParseAny r v r'"
  "ParseArray r = Inr (v, r') \<Longrightarrow> consumes ParseArray r v r'"
  "ParseArray_loop le i r arr = Inr (v, r') \<Longrightarrow>
     consumes (\<lambda>r. ParseArray_loop le i r arr) r v r'"
proof (induction r and r and le i r arr arbitrary: v r' and v r' and v r'
    rule: ParseAny_ParseArray_ParseArray_loop.induct)
  case (1 r)
  from 1(2) obtain t r1 where r: "r = t # r1"
    by (cases r) (auto simp: ParseAny_Nil)
  show ?case
  proof (cases "t = 1 \<or> t = 2")
    case True
    with 1(2) r have pa: "ParseArray r1 = Inr (v, r')"
      by (auto simp: ParseAny_Cons)
    have rf: "ReadFull 1 r = Inr ([t], r1)"
      using r by simp
    from True have "[t] ! 0 \<noteq> 0" "[t] ! 0 = 1 \<or> [t] ! 0 = 2"
      by auto
    from 1(1)[OF rf refl this pa] have "consumes ParseArray r1 v r'" .
    moreover from True have "ParseAny (t # s) = ParseArray s" for s
      by (auto simp: ParseAny_Cons)
    ultimately show ?thesis
      unfolding r by (rule consumes_tag)
  next
    case False
    note nt = False
    from 1(2) r nt have tags: "t \<in> {0, 9, 10, 12, 15, 16, 17, 18, 5, 6, 22}"
      by (auto simp: ParseAny_Cons split: if_splits)
    show ?thesis
    proof (cases "t = 0")
      case True
      with 1(2) r have "v = VNil" "r' = r1"
        by (auto simp: ParseAny_Cons)
      with True r have "r = [0] @ r'" "\<And>s. ParseAny ([0] @ s) = Inr (v, s)"
        by (auto simp: ParseAny_Cons)
      then show ?thesis
        unfolding consumes_def by blast
    next
      case False
      note nz = False
      from tags nz consider "t = 9" | "t = 10 \<or> t = 12" | "t = 15" | "t = 16" | "t = 17"
        | "t = 18" | "t = 5" | "t = 6" | "t = 22"
        by auto
      then show ?thesis
      proof cases
        case 1
        with \<open>ParseAny r = Inr (v, r')\<close> r have "as_any (ParseCode r1) = Inr (v, r')"
          by (simp add: ParseAny_Cons)
        then have "consumes (\<lambda>r. as_any (ParseCode r)) r1 v r'"
          by (rule as_any_consumes) (rule ParseCode_consumes)
        moreover from 1 have "ParseAny (t # s) = as_any (ParseCode s)" for s
          by (simp add: ParseAny_Cons)
        ultimately show ?thesis
          unfolding r by (rule consumes_tag)
      next
        case 2
        with \<open>ParseAny r = Inr (v, r')\<close> r have "as_any (ParseString r1) = Inr (v, r')"
          by (auto simp: ParseAny_Cons)
        then have "consumes (\<lambda>r. as_any (ParseString r)) r1 v r'"
          by (rule as_any_consumes) (rule ParseString_consumes)
        moreover from 2 have "ParseAny (t # s) = as_any (ParseString s)" for s
          by (auto simp: ParseAny_Cons)
        ultimately show ?thesis
          unfolding r by (rule consumes_tag)
      next
        case 3
        with \<open>ParseAny r = Inr (v, r')\<close> r have "consumes ParseInt8 r1 v r'"
          by (simp add: ParseAny_Cons scalar_consumes)
        moreover from 3 have "ParseAny (t # s) = ParseInt8 s" for s
          by (simp add: ParseAny_Cons)
        ultimately show ?thesis
          unfolding r by (rule consumes_tag)
      next
        case 4
        with \<open>ParseAny r = Inr (v, r')\<close> r have "consumes ParseInt16 r1 v r'"
          by (simp add: ParseAny_Cons scalar_consumes)
        moreover from 4 have "ParseAny (t # s) = ParseInt16 s" for s
          by (simp add: ParseAny_Cons)
        ultimately show ?thesis
          unfolding r by (rule consumes_tag)
      next
        case 5
        with \<open>ParseAny r = Inr (v, r')\<close> r have "consumes ParseUint8 r1 v r'"
          by (simp add: ParseAny_Cons scalar_consumes)
        moreover from 5 have "ParseAny (t # s) = ParseUint8 s" for s
          by (simp add: ParseAny_Cons)
        ultimately show ?thesis
          unfolding r by (rule consumes_tag)
      next
        case 6
        with \<open>ParseAny r = Inr (v, r')\<close> r have "consumes ParseUint16 r1 v r'"
          by (simp add: ParseAny_Cons scalar_consumes)
        moreover from 6 have "ParseAny (t # s) = ParseUint16 s" for s
          by (simp add: ParseAny_Cons)
        ultimately show ?thesis
          unfolding r by (rule consumes_tag)
      next
        case 7
        with \<open>ParseAny r = Inr (v, r')\<close> r have "consumes ParseInt32 r1 v r'"
          by (simp add: ParseAny_Cons scalar_consumes)
        moreover from 7 have "ParseAny (t # s) = ParseInt32 s" for s
          by (simp add: ParseAny_Cons)
        ultimately show ?thesis
          unfolding r by (rule consumes_tag)
      next
        case 8
        with \<open>ParseAny r = Inr (v, r')\<close> r have "consumes ParseUint32 r1 v r'"
          by (simp add: ParseAny_Cons scalar_consumes)
        moreover from 8 have "ParseAny (t # s) = ParseUint32 s" for s
          by (simp add: ParseAny_Cons)
        ultimately show ?thesis
          unfolding r by (rule consumes_tag)
      next
        case 9
        with \<open>ParseAny r = Inr (v, r')\<close> r have "consumes ParseEnum r1 v r'"
          by (simp add: ParseAny_Cons ParseEnum_consumes)
        moreover from 9 have "ParseAny (t # s) = ParseEnum s" for s
          by (simp add: ParseAny_Cons)
        ultimately show ?thesis
          unfolding r by (rule consumes_tag)
      qed
    qed
  qed
next
  case (2 r)
  from 2(2) obtain c r1 where r: "r = c # r1"
    by (cases r) (auto simp: ParseArray_Nil)
  have rf: "ReadFull 1 r = Inr ([c], r1)"
    using r by simp
  from 2(2) r
  have lp: "ParseArray_loop (unat ([c] ! 0)) 0 r1 (replicate (unat ([c] ! 0)) VNil) = Inr (v, r')"
    by (simp add: ParseArray_Cons)
  from 2(1)[OF rf refl refl lp] obtain used where u: "r1 = used @ r'"
    and all: "\<And>s. ParseArray_loop (unat c) 0 (used @ s) (replicate (unat c) VNil) = Inr (v, s)"
    unfolding consumes_def by auto
  from u r have "r = (c # used) @ r'"
    by simp
  moreover from all have "ParseArray ((c # used) @ s) = Inr (v, s)" for s
    by (simp add: ParseArray_Cons)
  ultimately show ?case
    unfolding consumes_def by blast
next
  case (3 le i r arr)
  show ?case
  proof (cases "i < le")
    case True
    with 3(3) obtain v1 r1 where pa: "ParseAny r = Inr (v1, r1)"
      and lp: "ParseArray_loop le (i + 1) r1 (arr[i := v1]) = Inr (v, r')"
      by (cases "ParseAny r") (auto simp: ParseArray_loop.simps [of le i])
    from 3(1)[OF True pa] obtain u1 where u1: "r = u1 @ r1"
      and a1: "\<And>s. ParseAny (u1 @ s) = Inr (v1, s)"
      unfolding consumes_def by auto
    from 3(2)[OF True pa refl lp] obtain u2 where u2: "r1 = u2 @ r'"
      and a2: "\<And>s. ParseArray_loop le (i + 1) (u2 @ s) (arr[i := v1]) = Inr (v, s)"
      unfolding consumes_def by auto
    from u1 u2 have "r = (u1 @ u2) @ r'"
      by simp
    moreover have "ParseArray_loop le i ((u1 @ u2) @ s) arr = Inr (v, s)" for s
      using True a1 [of "u2 @ s"] a2 [of s] by (simp add: ParseArray_loop.simps [of le i])
    ultimately show ?thesis
      unfolding consumes_def by blast
  next
    case False
    with 3(3) have "v = VArr arr" "r' = r"
      by (simp_all add: ParseArray_loop.simps [of le i])
    with False have "r = [] @ r'" "\<And>s. ParseArray_loop le i ([] @ s) arr = Inr (v, s)"
      by (simp_all add: ParseArray_loop.simps [of le i])
    then show ?thesis
      unfolding consumes_def by blast
  qed
qed

lemma ParseArray_loop_length:
  "ParseArray_loop le i r arr = Inr (v, r') \<Longrightarrow> \<exists>xs. v = VArr xs \<and> length xs = length arr"
proof (induction "le - i" arbitrary: i r arr)
  case 0
  then show ?case
    by (auto simp: ParseArray_loop.simps [of le i])
next
  case (Suc n)
  then have lt: "i < le"
    by simp
  with Suc(3) obtain v1 r1 where "ParseArray_loop le (i + 1) r1 (arr[i := v1]) = Inr (v, r')"
    by (cases "ParseAny r") (auto simp: ParseArray_loop.simps [of le i])
  moreover from Suc(2) have "n = le - (i + 1)"
    by simp
  ultimately have "\<exists>xs. v = VArr xs \<and> length xs = length (arr[i := v1])"
    by (rule Suc(1) [rotated])
  then show ?case
    by simp
qed


lemma scalar_exact_length:
  "ParseUint8 r = Inr (v, r') \<Longrightarrow> length r = length r' + 1"
  "ParseUint16 r = Inr (v, r') \<Longrightarrow> length r = length r' + 2"
  "ParseUint32 r = Inr (v, r') \<Longrightarrow> length r = length r' + 4"
  "ParseInt8 r = Inr (v, r') \<Longrightarrow> length r = length r' + 1"
  "ParseInt16 r = Inr (v, r') \<Longrightarrow> length r = length r' + 2"
  "ParseInt32 r = Inr (v, r') \<Longrightarrow> length r = length r' + 4"
  "ParseEnum r = Inr (v, r') \<Longrightarrow> length r = length r' + 1"
  by (auto simp: ParseUint8_def ParseUint16_def ParseUint32_def ParseInt8_def ParseInt16_def
        ParseInt32_def ParseEnum_def split: sum.splits if_splits dest!: ReadFull_length)

lemma string_exact_length:
  "ParseString r = Inr (s, r') \<Longrightarrow> \<exists>n rest. r = n # rest \<and> length rest = length r' + unat n"
  "ParseCode r = Inr (s, r') \<Longrightarrow> \<exists>n rest. r = n # rest \<and> length rest = length r' + unat n"
  by (cases r; auto simp: ParseString_def ParseCode_def Let_def split: sum.splits if_splits
        dest!: ReadFull_length)+

lemma consumes_drop:
  assumes "consumes f r v r'"
  shows "length r' \<le> length r" and "drop (length r - length r') r = r'"
  using assms unfolding consumes_def by auto

lemma ParseAny_declared_extent_all:
  "ParseAny r = Inr (v, r') \<Longrightarrow> declared_extent r = Some (length r - length r')"
  "ParseArray r = Inr (v, r') \<Longrightarrow>
     \<exists>c r1. r = c # r1 \<and> declared_extent_elems (unat c) r1 = Some (length r1 - length r')"
  "ParseArray_loop le i r arr = Inr (v, r') \<Longrightarrow>
     declared_extent_elems (le - i) r = Some (length r - length r')"
proof (induction r and r and le i r arr arbitrary: v r' and v r' and v r'
    rule: ParseAny_ParseArray_ParseArray_loop.induct)
  case (1 r)
  from 1(2) obtain t r1 where r: "r = t # r1"
    by (cases r) (auto simp: ParseAny_Nil)
  show ?case
  proof (cases "t = 1 \<or> t = 2")
    case True
    with 1(2) r have pa: "ParseArray r1 = Inr (v, r')"
      by (auto simp: ParseAny_Cons)
    have rf: "ReadFull 1 r = Inr ([t], r1)"
      using r by simp
    from True have "[t] ! 0 \<noteq> 0" "[t] ! 0 = 1 \<or> [t] ! 0 = 2"
      by auto
    from 1(1)[OF rf refl this pa] obtain c r2 where r1: "r1 = c # r2"
      and ee: "declared_extent_elems (unat c) r2 = Some (length r2 - length r')"
      by blast
    from ParseAny_consumes_all(2)[OF pa] have "length r' \<le> length r1"
      by (rule consumes_drop)
    moreover from pa r1 have "length r' \<le> length r2"
      using ParseAny_consumes_all(3) [of "unat c" 0 r2 "replicate (unat c) VNil" v r']
      by (auto simp: ParseArray_Cons dest: consumes_drop(1))
    ultimately show ?thesis
      using True r r1 ee by auto
  next
    case False
    with 1(2) r show ?thesis
      by (auto simp: ParseAny_Cons split: if_splits
            dest!: as_any_Inr scalar_exact_length string_exact_length)
  qed
next
  case (2 r)
  from 2(2) obtain c r1 where r: "r = c # r1"
    by (cases r) (auto simp: ParseArray_Nil)
  have rf: "ReadFull 1 r = Inr ([c], r1)"
    using r by simp
  from 2(2) r
  have lp: "ParseArray_loop (unat ([c] ! 0)) 0 r1 (replicate (unat ([c] ! 0)) VNil) = Inr (v, r')"
    by (simp add: ParseArray_Cons)
  from 2(1)[OF rf refl refl lp] r show ?case
    by simp
next
  case (3 le i r arr)
  show ?case
  proof (cases "i < le")
    case True
    with 3(3) obtain v1 r1 where pa: "ParseAny r = Inr (v1, r1)"
      and lp: "ParseArray_loop le (i + 1) r1 (arr[i := v1]) = Inr (v, r')"
      by (cases "ParseAny r") (auto simp: ParseArray_loop.simps [of le i])
    from 3(1)[OF True pa] have e1: "declared_extent r = Some (length r - length r1)" .
    from 3(2)[OF True pa refl lp]
    have e2: "declared_extent_elems (le - (i + 1)) r1 = Some (length r1 - length r')" .
    from ParseAny_consumes_all(1)[OF pa] have l1: "length r1 \<le> length r"
      and d1: "drop (length r - length r1) r = r1"
      by (rule consumes_drop)+
    from ParseAny_consumes_all(3)[OF lp] have l2: "length r' \<le> length r1"
      by (rule consumes_drop)
    from True have "le - i \<noteq> 0" "le - i - 1 = le - (i + 1)"
      by simp_all
    with e1 e2 d1 l1 l2 show ?thesis
      by (subst declared_extent_elems.simps) simp
  next
    case False
    with 3(3) have "r' = r"
      by (simp add: ParseArray_loop.simps [of le i])
    with False show ?thesis
      by (subst declared_extent_elems.simps) simp
  qed
qed

text \<open>
  C5. Whenever the value parser succeeds it has read exactly the bytes of the one value
  it returns: one tag byte and the payload that the tags and the length and count bytes
  declare. The bytes it used are a prefix of the input that is not empty (it holds the
  tag); their number is the declared extent of the value at the head of the input, and
  they are by themselves one value of that extent; the bytes it leaves are the rest of the
  input, and it never looks at them, since the same prefix followed by any other bytes
  gives the same value and leaves those bytes. When the tag is 1 or 2 the byte after it is
  the count, the array returned has exactly that many elements, and the bytes after the
  count are those of that many values.
\<close>

theorem ParseAny_consumes_one_value:
  assumes "ParseAny r = Inr (v, r')"
  shows "\<exists>used. r = used @ r' \<and> used \<noteq> [] \<and>
           declared_extent r = Some (length used) \<and>
           declared_extent used = Some (length used) \<and>
           (\<forall>s. ParseAny (used @ s) = Inr (v, s)) \<and>
           (hd used = 1 \<or> hd used = 2 \<longrightarrow>
              (\<exists>xs. v = VArr xs \<and> 2 \<le> length used \<and> length xs = unat (used ! 1) \<and>
                 declared_extent_elems (unat (used ! 1)) (drop 2 used) =
                   Some (length used - 2)))"
proof -
  from ParseAny_consumes_all(1)[OF assms] obtain used where u: "r = used @ r'"
    and all: "\<And>s. ParseAny (used @ s) = Inr (v, s)"
    unfolding consumes_def by blast
  from all [of "[]"] have self: "ParseAny used = Inr (v, [])"
    by simp
  then have ne: "used \<noteq> []"
    by (auto simp: ParseAny_Nil)
  from ParseAny_declared_extent_all(1)[OF assms] u
  have ext: "declared_extent r = Some (length used)"
    by simp
  from ParseAny_declared_extent_all(1)[OF self]
  have ext_used: "declared_extent used = Some (length used)"
    by simp
  have "\<exists>xs. v = VArr xs \<and> 2 \<le> length used \<and> length xs = unat (used ! 1) \<and>
      declared_extent_elems (unat (used ! 1)) (drop 2 used) = Some (length used - 2)"
    if t: "hd used = 1 \<or> hd used = 2"
  proof -
    from ne obtain t u1 where used: "used = t # u1"
      by (cases used) auto
    with t self have pa: "ParseArray u1 = Inr (v, [])"
      by (auto simp: ParseAny_Cons)
    from ParseAny_declared_extent_all(2)[OF pa] obtain c u2 where u1: "u1 = c # u2"
      and ee: "declared_extent_elems (unat c) u2 = Some (length u2)"
      by auto
    with pa have "ParseArray_loop (unat c) 0 u2 (replicate (unat c) VNil) = Inr (v, [])"
      by (simp add: ParseArray_Cons)
    then have "\<exists>xs. v = VArr xs \<and> length xs = length (replicate (unat c) VNil)"
      by (rule ParseArray_loop_length)
    with used u1 ee show ?thesis
      by simp
  qed
  with u ne ext ext_used all show ?thesis
    by blast
qed

theorem ParseAny_consumes_one_value_witness:
  "ParseAny [1, 2, 17, 255, 22, 35, 99, 98] = Inr (VArr [VUint8 255, VStr ''V''], [99, 98]) \<and>
   declared_extent [1, 2, 17, 255, 22, 35, 99, 98] = Some 6 \<and>
   (\<exists>used. [1, 2, 17, 255, 22, 35, 99, 98] = used @ [99, 98] \<and> used \<noteq> [] \<and>
      declared_extent [1, 2, 17, 255, 22, 35, 99, 98] = Some (length used) \<and>
      declared_extent used = Some (length used) \<and>
      (\<forall>s. ParseAny (used @ s) = Inr (VArr [VUint8 255, VStr ''V''], s)) \<and>
      (hd used = 1 \<or> hd used = 2 \<longrightarrow>
         (\<exists>xs. VArr [VUint8 255, VStr ''V''] = VArr xs \<and> 2 \<le> length used \<and>
            length xs = unat (used ! 1) \<and>
            declared_extent_elems (unat (used ! 1)) (drop 2 used) = Some (length used - 2))))"
proof -
  have h: "ParseAny [1, 2, 17, 255, 22, 35, 99, 98] =
      Inr (VArr [VUint8 255, VStr ''V''], [99, 98])"
    by (simp add: eval_rules cong: sum.case_cong_weak)
  have e: "declared_extent [1, 2, 17, 255, 22, 35, 99, 98] = Some 6"
    by (simp add: declared_extent_elems.simps cong: option.case_cong_weak)
  from ParseAny_consumes_one_value [OF h] h e show ?thesis
    by simp
qed

text \<open>
  C10. The result of decoding and flattening depends only on the bytes of the top-level
  value: when \<open>ParseFlattened\<close> succeeds on an input, it succeeds with the same mapping on
  that input followed by any further bytes.
\<close>

theorem ParseFlattened_ignores_trailing_bytes:
  assumes "ParseFlattened r = Inr m"
  shows "ParseFlattened (r @ extra) = Inr m"
proof -
  from assms obtain data r' where pa: "ParseAny r = Inr (data, r')" and fl: "flatten data = Inr m"
    by (auto simp: ParseFlattened_def split: sum.splits)
  from ParseAny_consumes_all(1)[OF pa] obtain used where "r = used @ r'"
    and "\<And>s. ParseAny (used @ s) = Inr (data, s)"
    unfolding consumes_def by blast
  then have "ParseAny (r @ extra) = Inr (data, r' @ extra)"
    by simp
  with fl show ?thesis
    by (simp add: ParseFlattened_def)
qed

theorem ParseFlattened_ignores_trailing_bytes_witness:
  "ParseFlattened [1, 1, 2, 2, 9, 6, 1, 0, 32, 7, 0, 255, 18, 9, 196] =
     Inr [''1-0:32.7.0.255'' \<mapsto> VUint16 2500] \<and>
   ParseFlattened ([1, 1, 2, 2, 9, 6, 1, 0, 32, 7, 0, 255, 18, 9, 196] @ [255, 3, 1, 200]) =
     Inr [''1-0:32.7.0.255'' \<mapsto> VUint16 2500]"
proof -
  have h: "ParseFlattened [1, 1, 2, 2, 9, 6, 1, 0, 32, 7, 0, 255, 18, 9, 196] =
      Inr [''1-0:32.7.0.255'' \<mapsto> VUint16 2500]"
    by (simp add: eval_rules cong: sum.case_cong_weak)
  from ParseFlattened_ignores_trailing_bytes [OF h, of "[255, 3, 1, 200]"] h show ?thesis
    by simp
qed


section \<open>The flattener\<close>

lemma valid_item_iff:
  "valid_item item \<longleftrightarrow> (\<exists>key v rest. item = VArr (VStr key # v # rest))"
  by (induction item rule: valid_item.induct) simp_all

lemma flatten_item_valid:
  "valid_item item \<Longrightarrow> flatten_item item m = Inr (m(key_of item \<mapsto> value_of item))"
  by (auto simp: valid_item_iff flatten_item_def)

lemma flatten_item_invalid:
  assumes "\<not> valid_item item"
  shows "\<exists>e. \<forall>m. flatten_item item m = Inl e"
proof (cases item)
  case (VArr sub)
  show ?thesis
  proof (cases "length sub < 2")
    case True
    with VArr show ?thesis
      by (simp add: flatten_item_def)
  next
    case False
    then obtain k v rest where sub: "sub = k # v # rest"
      by (cases sub; cases "tl sub") auto
    with assms VArr have "\<forall>key. k \<noteq> VStr key"
      by (auto simp: valid_item_iff)
    with VArr sub show ?thesis
      by (cases k) (simp_all add: flatten_item_def)
  qed
qed (simp_all add: flatten_item_def)

lemma flatten_loop_valid_prefix:
  "list_all valid_item pre \<Longrightarrow>
     flatten_loop (pre @ rest) m =
       flatten_loop rest (m ++ map_of (rev (map (\<lambda>x. (key_of x, value_of x)) pre)))"
proof (induction pre arbitrary: m)
  case Nil
  show ?case by simp
next
  case (Cons x pre)
  then have "flatten_loop ((x # pre) @ rest) m =
      flatten_loop rest
        (m(key_of x \<mapsto> value_of x) ++ map_of (rev (map (\<lambda>x. (key_of x, value_of x)) pre)))"
    by (simp add: flatten_item_valid)
  also have "m(key_of x \<mapsto> value_of x) ++ map_of (rev (map (\<lambda>x. (key_of x, value_of x)) pre)) =
      m ++ map_of (rev (map (\<lambda>x. (key_of x, value_of x)) (x # pre)))"
    by (simp add: map_add_upd_left [symmetric] fun_eq_iff map_add_def split: option.splits)
  finally show ?case .
qed

text \<open>
  C2, as the code has it. The flattener checks the elements of the top-level array in
  order, each with three checks in this order: an element that is not an array gives the
  error "sub-level data not of array type"; an array of fewer than two members gives
  "sub-level data does not contain at least two entries"; an array of two or more members
  gives "first entry not string type" if and only if its first member is not a string.
  Identifiers, texts and units are all strings, so a text or a unit as first member is
  accepted as the key. The error of the flattener is that of the first element failing
  a check.
\<close>

theorem flatten_item_checks:
  "(flatten_item item m = Inl SubLevelNotArray \<longleftrightarrow> (\<forall>sub. item \<noteq> VArr sub)) \<and>
   (\<forall>sub. item = VArr sub \<longrightarrow>
      (flatten_item item m = Inl SubLevelTooFewEntries \<longleftrightarrow> length sub < 2)) \<and>
   (\<forall>sub. item = VArr sub \<and> 2 \<le> length sub \<longrightarrow>
      (flatten_item item m = Inl FirstEntryNotString \<longleftrightarrow> (\<forall>key. sub ! 0 \<noteq> VStr key)) \<and>
      (\<forall>key. sub ! 0 = VStr key \<longrightarrow> flatten_item item m = Inr (m(key \<mapsto> sub ! 1)))) \<and>
   (list_all valid_item pre \<and> \<not> valid_item item \<longrightarrow>
      (\<exists>e. (\<forall>m'. flatten_item item m' = Inl e) \<and> flatten (VArr (pre @ item # post)) = Inl e))"
proof -
  have a: "flatten_item item m = Inl SubLevelNotArray \<longleftrightarrow> (\<forall>sub. item \<noteq> VArr sub)"
    by (cases item) (auto simp: flatten_item_def split: any.splits)
  have b: "flatten_item (VArr sub) m = Inl SubLevelTooFewEntries \<longleftrightarrow> length sub < 2" for sub
    by (auto simp: flatten_item_def split: any.splits)
  have c: "flatten_item (VArr sub) m = Inl FirstEntryNotString \<longleftrightarrow> (\<forall>key. sub ! 0 \<noteq> VStr key)"
    if "2 \<le> length sub" for sub
    using that by (auto simp: flatten_item_def split: any.splits)
  have d: "flatten_item (VArr sub) m = Inr (m(key \<mapsto> sub ! 1))"
    if "2 \<le> length sub" "sub ! 0 = VStr key" for sub key
    using that by (auto simp: flatten_item_def)
  have e: "\<exists>e. (\<forall>m'. flatten_item item m' = Inl e) \<and> flatten (VArr (pre @ item # post)) = Inl e"
    if pre: "list_all valid_item pre" and item: "\<not> valid_item item"
  proof -
    from flatten_item_invalid [OF item] obtain e where e: "\<And>m'. flatten_item item m' = Inl e"
      by blast
    then have "flatten (VArr (pre @ item # post)) = Inl e"
      by (simp add: flatten_def flatten_loop_valid_prefix [OF pre])
    with e show ?thesis
      by blast
  qed
  from a b c d e show ?thesis
    by blast
qed

theorem flatten_item_checks_witness:
  "list_all valid_item [VArr [VStr ''V'', VNil]] \<and> \<not> valid_item (VArr [VUint8 1, VNil]) \<and>
   2 \<le> length [VUint8 1, VNil] \<and>
   flatten_item (VArr [VUint8 1, VNil]) Map.empty = Inl FirstEntryNotString \<and>
   flatten (VArr ([VArr [VStr ''V'', VNil]] @ VArr [VUint8 1, VNil] # [VNil])) =
     Inl FirstEntryNotString"
  using flatten_item_checks
    [of "VArr [VUint8 1, VNil]" Map.empty "[VArr [VStr ''V'', VNil]]" "[VNil]"]
  by (auto simp: flatten_item_def)

text \<open>
  Counterexample to C2 for first members that are not identifiers: an element whose first member is a unit
  (tag 22) or a text (tag 10) is not refused; its first member is the key.
\<close>

theorem flatten_unit_key_counterexample:
  "ParseAny [22, 35] = Inr (VStr ''V'', []) \<and>
   ParseFlattened [1, 1, 2, 2, 22, 35, 17, 7] = Inr [''V'' \<mapsto> VUint8 7] \<and>
   ParseAny [10, 1, 86] = Inr (VStr ''V'', []) \<and>
   ParseFlattened [1, 1, 2, 2, 10, 1, 86, 17, 7] = Inr [''V'' \<mapsto> VUint8 7]"
  by (simp add: eval_rules char_of_def bit_Suc_0_iff cong: sum.case_cong_weak)


lemma flatten_valid_Inr:
  "list_all valid_item arr \<Longrightarrow>
     flatten (VArr arr) = Inr (map_of (rev (map (\<lambda>x. (key_of x, value_of x)) arr)))"
  using flatten_loop_valid_prefix [of arr "[]" Map.empty] by (simp add: flatten_def)

lemma flatten_Inr_valid:
  assumes "flatten data = Inr m"
  shows "\<exists>arr. data = VArr arr \<and> list_all valid_item arr"
proof -
  from assms obtain arr where data: "data = VArr arr"
    by (cases data) (auto simp: flatten_def)
  have "list_all valid_item arr"
  proof (rule ccontr)
    assume "\<not> list_all valid_item arr"
    then have "\<exists>x\<in>set arr. \<not> valid_item x"
      by (simp add: list_all_iff)
    then obtain pre item post where arr: "arr = pre @ item # post" and item: "\<not> valid_item item"
      and pre: "\<forall>y\<in>set pre. \<not> \<not> valid_item y"
      by (auto dest!: split_list_first_prop)
    from pre have pre': "list_all valid_item pre"
      by (simp add: list_all_iff)
    from flatten_item_invalid [OF item] obtain e where "\<And>m'. flatten_item item m' = Inl e"
      by blast
    then have "flatten (VArr arr) = Inl e"
      by (simp add: arr flatten_def flatten_loop_valid_prefix [OF pre'])
    with assms data show False
      by simp
  qed
  with data show ?thesis
    by blast
qed

text \<open>
  C4, as the code has it. For every top-level array whose elements are all arrays of
  two or more members with a string as first member, the flattener succeeds. The keys of
  the mapping are exactly the first members of the elements; a key carried by several
  elements has one entry, with the second member of the last of them (the later write
  replaces the earlier). When no two elements carry the same key, the mapping has exactly
  one entry per element, and each element's key maps to that element's second member.
\<close>

theorem flatten_valid_array:
  assumes "list_all valid_item arr"
  shows "\<exists>m. flatten (VArr arr) = Inr m \<and>
           m = map_of (rev (map (\<lambda>x. (key_of x, value_of x)) arr)) \<and>
           dom m = key_of ` set arr \<and>
           (distinct (map key_of arr) \<longrightarrow>
              card (dom m) = length arr \<and> (\<forall>x\<in>set arr. m (key_of x) = Some (value_of x)))"
proof -
  let ?kv = "map (\<lambda>x. (key_of x, value_of x)) arr"
  let ?m = "map_of (rev ?kv)"
  have dom: "dom ?m = key_of ` set arr"
    by (simp add: dom_map_of_conv_image_fst image_image)
  have "card (dom ?m) = length arr \<and> (\<forall>x\<in>set arr. ?m (key_of x) = Some (value_of x))"
    if d: "distinct (map key_of arr)"
  proof
    from d have "card (set (map key_of arr)) = length (map key_of arr)"
      by (rule distinct_card)
    with dom show "card (dom ?m) = length arr"
      by simp
    from d have "distinct (map fst (rev ?kv))"
      by (simp add: rev_map [symmetric] comp_def)
    then show "\<forall>x\<in>set arr. ?m (key_of x) = Some (value_of x)"
      by (auto intro!: map_of_is_SomeI)
  qed
  with flatten_valid_Inr [OF assms] dom show ?thesis
    by blast
qed

theorem flatten_valid_array_witness:
  "list_all valid_item [VArr [VStr ''a'', VUint8 1, VNil], VArr [VStr ''b'', VUint8 2]] \<and>
   flatten (VArr [VArr [VStr ''a'', VUint8 1, VNil], VArr [VStr ''b'', VUint8 2]]) =
     Inr [''a'' \<mapsto> VUint8 1, ''b'' \<mapsto> VUint8 2] \<and>
   (\<exists>m. flatten (VArr [VArr [VStr ''a'', VUint8 1, VNil], VArr [VStr ''b'', VUint8 2]]) = Inr m \<and>
      card (dom m) = 2)"
proof -
  let ?arr = "[VArr [VStr ''a'', VUint8 1, VNil], VArr [VStr ''b'', VUint8 2]]"
  have h: "list_all valid_item ?arr"
    by simp
  have f: "flatten (VArr ?arr) = Inr [''a'' \<mapsto> VUint8 1, ''b'' \<mapsto> VUint8 2]"
    by (simp add: flatten_def flatten_item_def)
  from flatten_valid_array [OF h] obtain m where "flatten (VArr ?arr) = Inr m"
    and "distinct (map key_of ?arr) \<longrightarrow> card (dom m) = length ?arr"
    by blast
  then have "flatten (VArr ?arr) = Inr m \<and> card (dom m) = 2"
    by simp
  with h f show ?thesis
    by blast
qed

text \<open>
  Counterexample to C4 for repeated identifiers: two elements with the same identifier give a
  mapping of one entry, not two.
\<close>

theorem flatten_duplicate_key_counterexample:
  "ParseAny [1, 2, 2, 2, 9, 6, 1, 0, 32, 7, 0, 255, 17, 1,
                   2, 2, 9, 6, 1, 0, 32, 7, 0, 255, 17, 2] =
     Inr (VArr [VArr [VStr ''1-0:32.7.0.255'', VUint8 1],
                VArr [VStr ''1-0:32.7.0.255'', VUint8 2]], []) \<and>
   ParseFlattened [1, 2, 2, 2, 9, 6, 1, 0, 32, 7, 0, 255, 17, 1,
                         2, 2, 9, 6, 1, 0, 32, 7, 0, 255, 17, 2] =
     Inr [''1-0:32.7.0.255'' \<mapsto> VUint8 2] \<and>
   card (dom [''1-0:32.7.0.255'' \<mapsto> VUint8 2]) = 1"
  by (simp add: eval_rules cong: sum.case_cong_weak)


section \<open>The producer\<close>

text \<open>
  C9, as the code has it. When decoding or flattening of the record in the buffer fails,
  the producer sends nothing for it and counts a parse error; the flattener returns an
  error and no mapping, not the part built so far. A record is sent only after a read
  without error on which \<open>ParseFlattened\<close> succeeded, and then the top-level value was an
  array whose elements are all arrays of two or more members with a string as first member
  (an identifier, a text or a unit: the code does not tell them apart), and the record sent
  is the mapping flattened from it.
\<close>

theorem producer_step_sends_validated:
  "(\<forall>perr. ParseFlattened (drop 17 buf) = Inl perr \<longrightarrow>
      packets (producer_step err buf s) = packets s \<and>
      (err = ErrNil \<longrightarrow>
         parseErrorCounter (producer_step err buf s) = parseErrorCounter s + 1)) \<and>
   (err \<noteq> ErrNil \<longrightarrow> packets (producer_step err buf s) = packets s) \<and>
   (packets (producer_step err buf s) \<noteq> packets s \<longrightarrow>
      (\<exists>arr r' m. err = ErrNil \<and> ParseAny (drop 17 buf) = Inr (VArr arr, r') \<and>
         list_all valid_item arr \<and> flatten (VArr arr) = Inr m \<and>
         ParseFlattened (drop 17 buf) = Inr m \<and>
         packets (producer_step err buf s) = packets s @ [m]))"
proof -
  have a: "packets (producer_step err buf s) = packets s \<and>
      (err = ErrNil \<longrightarrow>
         parseErrorCounter (producer_step err buf s) = parseErrorCounter s + 1)"
    if "ParseFlattened (drop 17 buf) = Inl perr" for perr
    using that by (cases err) (simp_all add: producer_step_def)
  have b: "packets (producer_step err buf s) = packets s" if "err \<noteq> ErrNil"
    using that by (cases err) (simp_all add: producer_step_def)
  have c: "\<exists>arr r' m. err = ErrNil \<and> ParseAny (drop 17 buf) = Inr (VArr arr, r') \<and>
         list_all valid_item arr \<and> flatten (VArr arr) = Inr m \<and>
         ParseFlattened (drop 17 buf) = Inr m \<and>
         packets (producer_step err buf s) = packets s @ [m]"
    if ne: "packets (producer_step err buf s) \<noteq> packets s"
  proof -
    from ne b have err: "err = ErrNil"
      by blast
    from ne a obtain m where m: "ParseFlattened (drop 17 buf) = Inr m"
      by (cases "ParseFlattened (drop 17 buf)") auto
    then obtain data r' where pa: "ParseAny (drop 17 buf) = Inr (data, r')"
      and fl: "flatten data = Inr m"
      by (auto simp: ParseFlattened_def split: sum.splits)
    from flatten_Inr_valid [OF fl] obtain arr where "data = VArr arr" "list_all valid_item arr"
      by blast
    moreover from err m have "packets (producer_step err buf s) = packets s @ [m]"
      by (simp add: producer_step_def)
    ultimately show ?thesis
      using err pa fl m by blast
  qed
  from a b c show ?thesis
    by blast
qed

theorem producer_step_sends_validated_witness:
  "ParseFlattened (drop 17 [0, 0, 0, 0, 0, 0, 0, 0, 0, 0, 0, 0, 0, 0, 0, 0, 0, 1, 5, 0, 0]) =
     Inl EOF \<and>
   packets (producer_step ErrNil
       [0, 0, 0, 0, 0, 0, 0, 0, 0, 0, 0, 0, 0, 0, 0, 0, 0, 1, 5, 0, 0]
       \<lparr>msgCounter = 0, resyncCounter = 0, abortCounter = 0, parseErrorCounter = 0,
        packets = []\<rparr>) = [] \<and>
   parseErrorCounter (producer_step ErrNil
       [0, 0, 0, 0, 0, 0, 0, 0, 0, 0, 0, 0, 0, 0, 0, 0, 0, 1, 5, 0, 0]
       \<lparr>msgCounter = 0, resyncCounter = 0, abortCounter = 0, parseErrorCounter = 0,
        packets = []\<rparr>) = 1 \<and>
   packets (producer_step ErrNil
       [0, 0, 0, 0, 0, 0, 0, 0, 0, 0, 0, 0, 0, 0, 0, 0, 0,
        1, 1, 2, 2, 9, 6, 1, 0, 32, 7, 0, 255, 18, 9, 196, 0, 0]
       \<lparr>msgCounter = 0, resyncCounter = 0, abortCounter = 0, parseErrorCounter = 0,
        packets = []\<rparr>) = [[''1-0:32.7.0.255'' \<mapsto> VUint16 2500]] \<and>
   (\<exists>arr r'. ParseAny (drop 17
       [0, 0, 0, 0, 0, 0, 0, 0, 0, 0, 0, 0, 0, 0, 0, 0, 0,
        1, 1, 2, 2, 9, 6, 1, 0, 32, 7, 0, 255, 18, 9, 196, 0, 0]) = Inr (VArr arr, r') \<and>
      list_all valid_item arr)"
proof -
  let ?s0 = "\<lparr>msgCounter = 0, resyncCounter = 0, abortCounter = 0, parseErrorCounter = 0,
      packets = []\<rparr>"
  let ?bad = "[0, 0, 0, 0, 0, 0, 0, 0, 0, 0, 0, 0, 0, 0, 0, 0, 0, 1, 5, 0, 0] :: byte list"
  let ?good = "[0, 0, 0, 0, 0, 0, 0, 0, 0, 0, 0, 0, 0, 0, 0, 0, 0,
      1, 1, 2, 2, 9, 6, 1, 0, 32, 7, 0, 255, 18, 9, 196, 0, 0] :: byte list"
  have bad: "ParseFlattened (drop 17 ?bad) = Inl EOF"
    by (simp add: eval_rules cong: sum.case_cong_weak)
  have good: "ParseFlattened (drop 17 ?good) = Inr [''1-0:32.7.0.255'' \<mapsto> VUint16 2500]"
    by (simp add: eval_rules cong: sum.case_cong_weak)
  from good have sent: "packets (producer_step ErrNil ?good ?s0) =
      [[''1-0:32.7.0.255'' \<mapsto> VUint16 2500]]"
    by (simp add: producer_step_def)
  then have ne: "packets (producer_step ErrNil ?good ?s0) \<noteq> packets ?s0"
    by simp
  from producer_step_sends_validated [of ?bad ErrNil ?s0] bad
  have "packets (producer_step ErrNil ?bad ?s0) = [] \<and>
      parseErrorCounter (producer_step ErrNil ?bad ?s0) = 1"
    by simp
  moreover from producer_step_sends_validated [of ?good ErrNil ?s0] ne
  have "\<exists>arr r'. ParseAny (drop 17 ?good) = Inr (VArr arr, r') \<and> list_all valid_item arr"
    by blast
  ultimately show ?thesis
    using bad sent by blast
qed

text \<open>
  Counterexample to C9 for first members that are not identifiers: a record whose element has a unit (tag 22) as
  first member is sent on the channel, with the unit as the key.
\<close>

theorem producer_step_unit_key_counterexample:
  "ParseAny [22, 33] = Inr (VStr ''A'', []) \<and>
   ParseAny (drop 17 [0, 0, 0, 0, 0, 0, 0, 0, 0, 0, 0, 0, 0, 0, 0, 0, 0,
                      1, 1, 2, 2, 22, 33, 17, 7, 0, 0]) =
     Inr (VArr [VArr [VStr ''A'', VUint8 7]], [0, 0]) \<and>
   packets (producer_step ErrNil
       [0, 0, 0, 0, 0, 0, 0, 0, 0, 0, 0, 0, 0, 0, 0, 0, 0, 1, 1, 2, 2, 22, 33, 17, 7, 0, 0]
       \<lparr>msgCounter = 0, resyncCounter = 0, abortCounter = 0, parseErrorCounter = 0,
        packets = []\<rparr>) = [[''A'' \<mapsto> VUint8 7]]"
  by (simp add: producer_step_def eval_rules cong: sum.case_cong_weak)


end
